theory Spec2Isabelle
  imports Main "HOL-Library.Word" "HOL-Library.Sublist" "HOL-Library.List_Lexorder"
begin

section \<open>The DOJ file URL extractor (extract\_urls\_browser.js)\<close>

text \<open>
  The script is one async function run in a browser console. It scans the rendered
  document for PDF links, collects them in a \<open>Set\<close>, clicks the "Next page" control,
  waits, and repeats; at the end it sorts the set and offers it as a text file.

  The embedding follows the source function by function. What the browser does is data of
  the model: a document is the list of its anchor elements in document order, and the
  site is a function giving the document that is rendered after \<open>n\<close> clicks of the
  next-page control (and the two-second wait that follows each click). Between the
  \<open>await\<close>s of one loop iteration only microtasks run, so one iteration sees one document.
  DOM calls are taken not to throw.
\<close>

subsection \<open>JavaScript strings\<close>

text \<open>
  A JavaScript string is a sequence of UTF-16 code units; \<open>includes\<close>, \<open>endsWith\<close>,
  equality and the default comparison of \<open>sort\<close> all work on code units. The order on
  lists from \<open>List_Lexorder\<close> is the lexicographic one, a proper prefix being smaller,
  and the order on words is the unsigned one: together they are the comparison of two
  strings by \<open><\<close> in JavaScript.
\<close>

type_synonym code_unit = "16 word"
type_synonym jsstring = "code_unit list"

text \<open>An ASCII string literal of the source, as code units.\<close>

definition lit :: "string \<Rightarrow> jsstring" where
  "lit s = map (\<lambda>c. of_nat (of_char c)) s"

text \<open>
  \<open>String.prototype.includes\<close> (name suffixed: \<open>includes\<close> is a keyword of Isabelle):
  some position of \<open>s\<close> starts a copy of \<open>sub\<close>.
\<close>

fun includes_js :: "jsstring \<Rightarrow> jsstring \<Rightarrow> bool" where
  "includes_js [] sub = (sub = [])"
| "includes_js (c # cs) sub = (take (length sub) (c # cs) = sub \<or> includes_js cs sub)"

text \<open>
  \<open>String.prototype.endsWith\<close>: with \<open>start = length s - length suf\<close>, false when
  \<open>start < 0\<close>, otherwise whether the code units from \<open>start\<close> on are \<open>suf\<close>.
\<close>

definition endsWith :: "jsstring \<Rightarrow> jsstring \<Rightarrow> bool" where
  "endsWith s suf =
     (if length s < length suf then False else drop (length s - length suf) s = suf)"

text \<open>\<open>Array.prototype.join\<close> on an array of strings.\<close>

fun join :: "jsstring \<Rightarrow> jsstring list \<Rightarrow> jsstring" where
  "join sep [] = []"
| "join sep [x] = x"
| "join sep (x # y # ys) = x @ sep @ join sep (y # ys)"

text \<open>
  A non-negative integer inside a template literal: its decimal digits. (The counters of
  the script are far below \<open>10^21\<close>, where JavaScript switches to exponent notation.)
\<close>

fun toString :: "nat \<Rightarrow> jsstring" where
  "toString n =
     (if n < 10 then [of_nat (48 + n)]
      else toString (n div 10) @ [of_nat (48 + n mod 10)])"

declare toString.simps [simp del]

text \<open>
  Reading a decimal numeral back: the digits are the code units \<open>0x30\<close> to \<open>0x39\<close>, and
  a string of digits has the value of its digits in base ten.
\<close>

definition is_digit :: "code_unit \<Rightarrow> bool" where
  "is_digit d = (48 \<le> d \<and> d \<le> 57)"

definition decimal_value :: "jsstring \<Rightarrow> nat" where
  "decimal_value ds = foldl (\<lambda>acc d. 10 * acc + (unat d - 48)) 0 ds"

subsection \<open>The document\<close>

text \<open>
  An anchor element, with what the script reads of it: the text of its \<open>href\<close> and
  \<open>aria-label\<close> attributes (which the selectors test), its class list, and its
  \<open>href\<close> property (the resolved URL, which the filter tests).
\<close>

record anchor =
  attr_href :: "jsstring option"
  attr_aria_label :: "jsstring option"
  classList :: "jsstring list"
  href :: jsstring

type_synonym document = "anchor list"

text \<open>\<open>document.querySelectorAll('a[href*=".pdf"]')\<close>\<close>

definition querySelectorAll_pdf :: "document \<Rightarrow> anchor list" where
  "querySelectorAll_pdf doc =
     filter (\<lambda>a. case attr_href a of None \<Rightarrow> False
                 | Some h \<Rightarrow> includes_js h (lit ''.pdf'')) doc"

text \<open>\<open>document.querySelector('a[aria-label="Next page"]')\<close>: the first match, or null.\<close>

definition querySelector_next :: "document \<Rightarrow> anchor option" where
  "querySelector_next doc = find (\<lambda>a. attr_aria_label a = Some (lit ''Next page'')) doc"

text \<open>\<open>classList.contains\<close>\<close>

definition contains :: "jsstring list \<Rightarrow> jsstring \<Rightarrow> bool" where
  "contains cl tok = (tok \<in> set cl)"

subsection \<open>The URL set\<close>

text \<open>
  A JavaScript \<open>Set\<close> of strings keeps its elements in insertion order and holds each
  once: a list without duplicates. \<open>add\<close> of an element that is present changes nothing.
\<close>

type_synonym url_set = "jsstring list"

definition Set_add :: "url_set \<Rightarrow> jsstring \<Rightarrow> url_set" where
  "Set_add s v = (if v \<in> set s then s else s @ [v])"

definition Set_size :: "url_set \<Rightarrow> nat" where
  "Set_size s = length s"

subsection \<open>The state of a run\<close>

text \<open>
  The variables of the script (\<open>allUrls\<close>, \<open>currentPage\<close>, \<open>foundFiles\<close>), what it has
  written (the console, and the \<open>innerHTML\<close> of the status panel), and how often it has
  clicked the next-page control.
\<close>

record run_state =
  allUrls :: url_set
  currentPage :: nat
  foundFiles :: nat
  console :: "jsstring list"
  statusHtml :: jsstring
  clicks :: nat

definition initial_state :: run_state where
  "initial_state =
     \<lparr>allUrls = [], currentPage = 0, foundFiles = 0,
      console = [lit ''Starting DOJ File URL Extraction...''],
      statusHtml = lit ''Starting...'', clicks = 0\<rparr>"

definition updateStatus :: "jsstring \<Rightarrow> run_state \<Rightarrow> run_state" where
  "updateStatus msg s =
     s\<lparr>console := console s @ [msg], statusHtml := statusHtml s @ lit ''<br>'' @ msg\<rparr>"

subsection \<open>Scanning a page\<close>

text \<open>The test of the \<open>if\<close> inside the \<open>forEach\<close> callback.\<close>

definition url_matches :: "jsstring \<Rightarrow> bool" where
  "url_matches url = (includes_js url (lit ''/epstein/files/'') \<and> endsWith url (lit ''.pdf''))"

text \<open>The \<open>forEach\<close> callback, on the pair of \<open>pageCount\<close> and \<open>allUrls\<close>.\<close>

definition visit_link :: "anchor \<Rightarrow> nat \<times> url_set \<Rightarrow> nat \<times> url_set" where
  "visit_link link acc =
     (let url = href link in
      if url_matches url then (fst acc + 1, Set_add (snd acc) url) else acc)"

definition extractUrlsFromCurrentPage :: "document \<Rightarrow> url_set \<Rightarrow> nat \<times> url_set" where
  "extractUrlsFromCurrentPage doc urls =
     (let links = querySelectorAll_pdf doc in fold visit_link links (0, urls))"

subsection \<open>Pagination\<close>

text \<open>
  \<open>hasNextPage\<close> returns the value of \<open>nextButton && !nextButton.classList.contains("disabled")\<close>:
  the left operand itself when it is null, the boolean on the right otherwise.
\<close>

datatype jsval = JSNull | JSBool bool

fun truthy :: "jsval \<Rightarrow> bool" where
  "truthy JSNull = False"
| "truthy (JSBool b) = b"

definition hasNextPage :: "document \<Rightarrow> jsval" where
  "hasNextPage doc =
     (case querySelector_next doc of
        None \<Rightarrow> JSNull
      | Some nextButton \<Rightarrow> JSBool (\<not> contains (classList nextButton) (lit ''disabled'')))"

definition goToNextPage :: "document \<Rightarrow> run_state \<Rightarrow> bool \<times> run_state" where
  "goToNextPage doc s =
     (case querySelector_next doc of
        Some nextButton \<Rightarrow> (True, s\<lparr>clicks := clicks s + 1\<rparr>)
      | None \<Rightarrow> (False, s))"

subsection \<open>The main loop\<close>

datatype terminal = Exhausted | LimitReached

definition check_mark :: code_unit where
  "check_mark = 0x2713"

definition warning_sign :: code_unit where
  "warning_sign = 0x26A0"

definition page_status :: "nat \<Rightarrow> nat \<Rightarrow> nat \<Rightarrow> jsstring" where
  "page_status page pageUrls uniq =
     lit ''Page '' @ toString page @ lit '': Found '' @ toString pageUrls @
     lit '' files (Total: '' @ toString uniq @ lit '' unique URLs)''"

definition last_page_status :: jsstring where
  "last_page_status = check_mark # lit '' Reached last page!''"

definition safety_limit_status :: jsstring where
  "safety_limit_status = warning_sign # lit '' Safety limit reached (500 pages)''"

text \<open>
  One iteration of \<open>while (true)\<close>: \<open>Inl\<close> when it leaves through a \<open>break\<close> (with the
  terminal state it reached), \<open>Inr\<close> when it goes round again.
\<close>

definition loop_body :: "(nat \<Rightarrow> document) \<Rightarrow> run_state \<Rightarrow> (terminal \<times> run_state) + run_state" where
  "loop_body site s =
     (let doc = site (clicks s);
          r = extractUrlsFromCurrentPage doc (allUrls s);
          pageUrls = fst r;
          s1 = s\<lparr>allUrls := snd r, foundFiles := foundFiles s + pageUrls,
                 currentPage := currentPage s + 1\<rparr>;
          s2 = updateStatus (page_status (currentPage s1) pageUrls (Set_size (allUrls s1))) s1
      in if \<not> truthy (hasNextPage doc) then Inl (Exhausted, updateStatus last_page_status s2)
         else if currentPage s2 > 500 then Inl (LimitReached, updateStatus safety_limit_status s2)
         else Inr (snd (goToNextPage doc s2)))"

lemma loop_body_currentPage:
  "loop_body site s = Inr s' \<Longrightarrow> currentPage s' = currentPage s + 1 \<and> currentPage s < 500"
  by (auto simp: loop_body_def Let_def updateStatus_def goToNextPage_def
           split: if_splits option.splits)

function main_loop :: "(nat \<Rightarrow> document) \<Rightarrow> run_state \<Rightarrow> terminal \<times> run_state" where
  "main_loop site s = (case loop_body site s of Inl r \<Rightarrow> r | Inr s' \<Rightarrow> main_loop site s')"
  by pat_completeness auto
termination
  by (relation "measure (\<lambda>(site, s). 501 - currentPage s)")
     (auto dest: loop_body_currentPage)

declare main_loop.simps [simp del]

subsection \<open>The download\<close>

record download =
  filename :: jsstring
  content :: jsstring

text \<open>
  \<open>Array.from(allUrls).sort().join("\n")\<close>. \<open>Array.from\<close> lists the set in insertion
  order. \<open>sort()\<close> without a comparator orders strings by their code units, ascending;
  the elements of a set are distinct, so there is one such arrangement, and the
  library's \<open>sort\<close> computes it, whichever algorithm the browser uses.
\<close>

definition urlList :: "url_set \<Rightarrow> jsstring" where
  "urlList urls = join [0x0A] (sort urls)"

definition finalize :: "run_state \<Rightarrow> run_state \<times> download" where
  "finalize s =
     (let a = \<lparr>filename = lit ''dataset8_urls.txt'', content = urlList (allUrls s)\<rparr>;
          s1 = updateStatus
                 (lit ''<br><strong>'' @ [check_mark] @ lit '' DONE! Downloaded '' @
                  toString (Set_size (allUrls s)) @ lit '' URLs</strong>'') s;
          s2 = s1\<lparr>console := console s1 @
                 [lit ''Complete! URLs saved to dataset8_urls.txt'',
                  lit ''Found '' @ toString (Set_size (allUrls s1)) @
                  lit '' unique file URLs across '' @ toString (currentPage s1) @ lit '' pages'']\<rparr>
      in (s2, a))"

definition run :: "(nat \<Rightarrow> document) \<Rightarrow> terminal \<times> run_state \<times> download" where
  "run site =
     (let r = main_loop site initial_state; f = finalize (snd r) in (fst r, fst f, snd f))"

subsection \<open>Counting iterations and naming the pages scanned\<close>

text \<open>
  The number of times \<open>main_loop\<close> runs the loop body: the same recursion, counting.
\<close>

function iterations :: "(nat \<Rightarrow> document) \<Rightarrow> run_state \<Rightarrow> nat" where
  "iterations site s = (case loop_body site s of Inl r \<Rightarrow> 1 | Inr s' \<Rightarrow> 1 + iterations site s')"
  by pat_completeness auto
termination
  by (relation "measure (\<lambda>(site, s). 501 - currentPage s)")
     (auto dest: loop_body_currentPage)

declare iterations.simps [simp del]

text \<open>The URL set after scanning a list of documents one after the other.\<close>

definition scan_pages :: "document list \<Rightarrow> url_set \<Rightarrow> url_set" where
  "scan_pages docs urls = fold (\<lambda>doc acc. snd (extractUrlsFromCurrentPage doc acc)) docs urls"

text \<open>
  The state after the first half of the loop body (scan, counters, status line), before
  the two exit checks.
\<close>

definition scanned :: "(nat \<Rightarrow> document) \<Rightarrow> run_state \<Rightarrow> run_state" where
  "scanned site s =
     (let r = extractUrlsFromCurrentPage (site (clicks s)) (allUrls s) in
      updateStatus (page_status (currentPage s + 1) (fst r) (Set_size (snd r)))
        (s\<lparr>allUrls := snd r, foundFiles := foundFiles s + fst r,
           currentPage := currentPage s + 1\<rparr>))"

text \<open>The state a loop iteration ends in, whichever way it ends.\<close>

definition state_of :: "(terminal \<times> run_state) + run_state \<Rightarrow> run_state" where
  "state_of r = (case r of Inl x \<Rightarrow> snd x | Inr s \<Rightarrow> s)"

subsection \<open>The states of a run\<close>

text \<open>
  The states the loop passes through at the end of each iteration, from the initial
  state on, including the state in which it leaves the loop.
\<close>

inductive reachable :: "(nat \<Rightarrow> document) \<Rightarrow> run_state \<Rightarrow> bool" for site where
  start: "reachable site initial_state"
| iterate: "reachable site s \<Longrightarrow> loop_body site s = Inr s' \<Longrightarrow> reachable site s'"
| leave: "reachable site s \<Longrightarrow> loop_body site s = Inl (t, s') \<Longrightarrow> reachable site s'"

text \<open>The URLs of a document that a scan adds, and the documents a run scans.\<close>

definition page_urls :: "document \<Rightarrow> jsstring set" where
  "page_urls doc = set (map href (filter (\<lambda>l. url_matches (href l)) (querySelectorAll_pdf doc)))"

definition pages_visited :: "(nat \<Rightarrow> document) \<Rightarrow> document list" where
  "pages_visited site = map site [0 ..< iterations site initial_state]"

subsection \<open>Example documents\<close>

text \<open>
  A link with a given \<open>href\<close> attribute and resolved URL, a next-page control with given
  classes, and a page with three links: one that passes the filter, one whose URL goes on
  after \<open>.pdf\<close>, and one outside \<open>/epstein/files/\<close>. The page has no next-page control.
\<close>

definition link_to :: "string \<Rightarrow> string \<Rightarrow> anchor" where
  "link_to attr url =
     \<lparr>attr_href = Some (lit attr), attr_aria_label = None, classList = [], href = lit url\<rparr>"

definition next_control :: "string list \<Rightarrow> anchor" where
  "next_control classes =
     \<lparr>attr_href = Some (lit ''?page=next''), attr_aria_label = Some (lit ''Next page''),
      classList = map lit classes, href = lit ''https://host/listing?page=next''\<rparr>"

definition example_links :: document where
  "example_links =
     [link_to ''/epstein/files/abc.pdf'' ''https://host/epstein/files/abc.pdf'',
      link_to ''/epstein/files/abc.pdf.html'' ''https://host/epstein/files/abc.pdf.html'',
      link_to ''/other/abc.pdf'' ''https://host/other/abc.pdf'']"

text \<open>
  A site whose next-page control never goes away, and one whose control disappears on the
  page shown after 500 clicks.
\<close>

definition endless_site :: "nat \<Rightarrow> document" where
  "endless_site n = [next_control []]"

definition site_of_501_pages :: "nat \<Rightarrow> document" where
  "site_of_501_pages n = (if n < 500 then [next_control []] else [])"

text \<open>
  A state in which the first example link is in the set already: one page scanned, one
  click made.
\<close>

definition seen :: run_state where
  "seen = \<lparr>allUrls = [lit ''https://host/epstein/files/abc.pdf''], currentPage = 1, foundFiles = 1,
      console = [], statusHtml = [], clicks = 1\<rparr>"


text \<open>A site that shows the example links and an enabled next-page control on every page.\<close>

definition listing_site :: "nat \<Rightarrow> document" where
  "listing_site n = example_links @ [next_control []]"

text \<open>
  Two sites with the same two files: one lists them over two pages, \<open>b\<close> before \<open>a\<close> and
  \<open>b\<close> again on the second page; the other lists them on a single page, \<open>a\<close> twice.
\<close>

definition link_a :: anchor where
  "link_a = link_to ''/epstein/files/a.pdf'' ''https://host/epstein/files/a.pdf''"

definition link_b :: anchor where
  "link_b = link_to ''/epstein/files/b.pdf'' ''https://host/epstein/files/b.pdf''"

definition site_two_pages :: "nat \<Rightarrow> document" where
  "site_two_pages n = (if n = 0 then [link_b, link_a, next_control []] else [link_b])"

definition site_one_page :: "nat \<Rightarrow> document" where
  "site_one_page n = [link_a, link_b, link_a]"

section \<open>Properties\<close>

subsection \<open>Strings and the URL set\<close>

lemma take_eq_prefix: "(take (length sub) s = sub) = prefix sub s"
  by (metis append_eq_conv_conj prefix_def append_take_drop_id)

lemma includes_js_sublist: "includes_js s sub = sublist sub s"
  by (induction s) (auto simp: take_eq_prefix sublist_Cons_right simp del: take_Suc_Cons)

lemma endsWith_suffix: "endsWith s suf = suffix suf s"
  unfolding endsWith_def
  by (auto simp: suffix_def dest: suffix_length_le) (metis append_take_drop_id)

lemma url_matches_iff:
  "url_matches u = (sublist (lit ''/epstein/files/'') u \<and> suffix (lit ''.pdf'') u)"
  by (simp add: url_matches_def includes_js_sublist endsWith_suffix)

lemma set_Set_add: "set (Set_add s v) = insert v (set s)"
  by (auto simp: Set_add_def)

lemma distinct_Set_add: "distinct s \<Longrightarrow> distinct (Set_add s v)"
  by (simp add: Set_add_def)

lemma prefix_Set_add: "prefix s (Set_add s v)"
  by (simp add: Set_add_def)

subsection \<open>One scan\<close>

lemma fst_fold_visit_link:
  "fst (fold visit_link ls acc) = fst acc + length (filter (\<lambda>l. url_matches (href l)) ls)"
  by (induction ls arbitrary: acc) (simp_all add: visit_link_def Let_def)

lemma set_fold_visit_link:
  "set (snd (fold visit_link ls acc)) =
     set (snd acc) \<union> href ` {l \<in> set ls. url_matches (href l)}"
  by (induction ls arbitrary: acc) (auto simp: visit_link_def Let_def set_Set_add)

lemma prefix_fold_visit_link: "prefix (snd acc) (snd (fold visit_link ls acc))"
proof (induction ls arbitrary: acc)
  case Nil
  show ?case by simp
next
  case (Cons l ls)
  have "prefix (snd acc) (snd (visit_link l acc))"
    by (simp add: visit_link_def Let_def prefix_Set_add)
  with Cons [of "visit_link l acc"] show ?case
    by (auto intro: prefix_order.trans)
qed

lemma distinct_fold_visit_link:
  "distinct (snd acc) \<Longrightarrow> distinct (snd (fold visit_link ls acc))"
  by (induction ls arbitrary: acc) (simp_all add: visit_link_def Let_def distinct_Set_add)

lemma fst_extract:
  "fst (extractUrlsFromCurrentPage doc urls) =
     length (filter (\<lambda>l. url_matches (href l)) (querySelectorAll_pdf doc))"
  by (simp add: extractUrlsFromCurrentPage_def fst_fold_visit_link)

lemma set_extract:
  "set (snd (extractUrlsFromCurrentPage doc urls)) =
     set urls \<union> href ` {l \<in> set (querySelectorAll_pdf doc). url_matches (href l)}"
  by (simp add: extractUrlsFromCurrentPage_def set_fold_visit_link)

lemma prefix_extract: "prefix urls (snd (extractUrlsFromCurrentPage doc urls))"
  using prefix_fold_visit_link [of "(0, urls)"] by (simp add: extractUrlsFromCurrentPage_def)

lemma distinct_extract:
  "distinct urls \<Longrightarrow> distinct (snd (extractUrlsFromCurrentPage doc urls))"
  by (simp add: extractUrlsFromCurrentPage_def distinct_fold_visit_link)

lemma extract_example_links:
  "extractUrlsFromCurrentPage example_links [] = (1, [lit ''https://host/epstein/files/abc.pdf''])"
  by code_simp

text \<open>
  C1 (filter correctness). The callback of the scan adds a candidate link's URL to the set,
  and counts it, exactly when the URL contains \<open>/epstein/files/\<close> and ends with \<open>.pdf\<close>;
  otherwise it leaves both the set and the count as they are. So the count a scan returns
  is the number of candidates that pass both tests, and the set after a scan holds what it
  held before and the URLs of the candidates that pass, and nothing else. "Contains" and
  "ends with" are the library's \<open>sublist\<close> and \<open>suffix\<close>.
\<close>

theorem filter_correctness:
  "visit_link link acc =
     (if sublist (lit ''/epstein/files/'') (href link) \<and> suffix (lit ''.pdf'') (href link)
      then (fst acc + 1, Set_add (snd acc) (href link)) else acc)
   \<and> fst (extractUrlsFromCurrentPage doc urls) =
       length (filter (\<lambda>l. sublist (lit ''/epstein/files/'') (href l) \<and> suffix (lit ''.pdf'') (href l))
                 (querySelectorAll_pdf doc))
   \<and> (\<forall>u. u \<in> set (snd (extractUrlsFromCurrentPage doc urls)) \<longleftrightarrow>
          u \<in> set urls \<or>
          (\<exists>l \<in> set (querySelectorAll_pdf doc). href l = u \<and>
             sublist (lit ''/epstein/files/'') u \<and> suffix (lit ''.pdf'') u))"
proof (intro conjI allI)
  show "visit_link link acc =
     (if sublist (lit ''/epstein/files/'') (href link) \<and> suffix (lit ''.pdf'') (href link)
      then (fst acc + 1, Set_add (snd acc) (href link)) else acc)"
    by (simp add: visit_link_def Let_def url_matches_iff)
next
  show "fst (extractUrlsFromCurrentPage doc urls) =
       length (filter (\<lambda>l. sublist (lit ''/epstein/files/'') (href l) \<and> suffix (lit ''.pdf'') (href l))
                 (querySelectorAll_pdf doc))"
    by (simp add: fst_extract url_matches_iff)
next
  fix u
  show "u \<in> set (snd (extractUrlsFromCurrentPage doc urls)) \<longleftrightarrow>
          u \<in> set urls \<or>
          (\<exists>l \<in> set (querySelectorAll_pdf doc). href l = u \<and>
             sublist (lit ''/epstein/files/'') u \<and> suffix (lit ''.pdf'') u)"
    by (auto simp: set_extract url_matches_iff)
qed

theorem filter_correctness_witness:
  "visit_link (link_to ''/epstein/files/abc.pdf'' ''https://host/epstein/files/abc.pdf'') (0, []) =
     (1, [lit ''https://host/epstein/files/abc.pdf''])
   \<and> visit_link (link_to ''/other/abc.pdf'' ''https://host/other/abc.pdf'') (0, []) = (0, [])
   \<and> fst (extractUrlsFromCurrentPage example_links []) = 1
   \<and> lit ''https://host/epstein/files/abc.pdf'' \<in> set (snd (extractUrlsFromCurrentPage example_links []))
   \<and> lit ''https://host/epstein/files/abc.pdf.html'' \<notin> set (snd (extractUrlsFromCurrentPage example_links []))
   \<and> lit ''https://host/other/abc.pdf'' \<notin> set (snd (extractUrlsFromCurrentPage example_links []))"
proof -
  have a: "sublist (lit ''/epstein/files/'') (lit ''https://host/epstein/files/abc.pdf'')
           \<and> suffix (lit ''.pdf'') (lit ''https://host/epstein/files/abc.pdf'')"
    by code_simp
  have b: "\<not> sublist (lit ''/epstein/files/'') (lit ''https://host/other/abc.pdf'')"
    by code_simp
  have c: "Set_add [] (lit ''https://host/epstein/files/abc.pdf'') =
           [lit ''https://host/epstein/files/abc.pdf'']"
    by (simp add: Set_add_def)
  have d: "lit ''https://host/epstein/files/abc.pdf.html'' \<noteq> lit ''https://host/epstein/files/abc.pdf''"
          "lit ''https://host/other/abc.pdf'' \<noteq> lit ''https://host/epstein/files/abc.pdf''"
    by (simp_all add: lit_def)
  show ?thesis
    using filter_correctness [of "link_to ''/epstein/files/abc.pdf'' ''https://host/epstein/files/abc.pdf''"
            "(0, [])" example_links "[]"]
          filter_correctness [of "link_to ''/other/abc.pdf'' ''https://host/other/abc.pdf''"
            "(0, [])" example_links "[]"]
          a b c d
    by (simp add: extract_example_links link_to_def)
qed

lemma fold_visit_link_absorb:
  "\<forall>l \<in> set ls. url_matches (href l) \<longrightarrow> href l \<in> set (snd acc) \<Longrightarrow>
   snd (fold visit_link ls acc) = snd acc"
  by (induction ls arbitrary: acc) (auto simp: visit_link_def Let_def Set_add_def)

lemma extract_twice:
  "snd (extractUrlsFromCurrentPage doc (snd (extractUrlsFromCurrentPage doc urls))) =
   snd (extractUrlsFromCurrentPage doc urls)"
proof -
  let ?u = "snd (extractUrlsFromCurrentPage doc urls)"
  have "\<forall>l \<in> set (querySelectorAll_pdf doc). url_matches (href l) \<longrightarrow> href l \<in> set (snd (0::nat, ?u))"
    by (auto simp: set_extract)
  then have "snd (fold visit_link (querySelectorAll_pdf doc) (0, ?u)) = snd (0::nat, ?u)"
    by (rule fold_visit_link_absorb)
  then show ?thesis
    by (simp add: extractUrlsFromCurrentPage_def)
qed

lemma length_fold_visit_link:
  "length (snd (fold visit_link ls acc)) + fst acc \<le> length (snd acc) + fst (fold visit_link ls acc)"
proof (induction ls arbitrary: acc)
  case Nil
  show ?case by simp
next
  case (Cons l ls)
  have "length (snd (visit_link l acc)) + fst acc \<le> length (snd acc) + fst (visit_link l acc)"
    by (simp add: visit_link_def Let_def Set_add_def)
  with Cons [of "visit_link l acc"] show ?case
    by simp
qed

lemma size_extract:
  "Set_size (snd (extractUrlsFromCurrentPage doc urls)) \<le>
     Set_size urls + fst (extractUrlsFromCurrentPage doc urls)"
  using length_fold_visit_link [of "querySelectorAll_pdf doc" "(0, urls)"]
  by (simp add: extractUrlsFromCurrentPage_def Set_size_def)

lemma extract_seen_example:
  "extractUrlsFromCurrentPage example_links [lit ''https://host/epstein/files/abc.pdf''] =
   (1, [lit ''https://host/epstein/files/abc.pdf''])"
  by code_simp

text \<open>
  C6 (idempotent accumulation). Scanning a document a second time, straight after the
  first, leaves the set as the first scan left it: the same elements in the same order,
  hence the same size. This holds for every document and every set before the first scan.
\<close>

theorem idempotent_accumulation:
  "Set_size (snd (extractUrlsFromCurrentPage doc (snd (extractUrlsFromCurrentPage doc urls)))) =
     Set_size (snd (extractUrlsFromCurrentPage doc urls))
   \<and> snd (extractUrlsFromCurrentPage doc (snd (extractUrlsFromCurrentPage doc urls))) =
     snd (extractUrlsFromCurrentPage doc urls)
   \<and> scan_pages [doc, doc] urls = scan_pages [doc] urls"
  by (simp add: extract_twice scan_pages_def)

theorem idempotent_accumulation_witness:
  "Set_size (snd (extractUrlsFromCurrentPage example_links [])) = 1
   \<and> Set_size (snd (extractUrlsFromCurrentPage example_links
        (snd (extractUrlsFromCurrentPage example_links [])))) = 1
   \<and> scan_pages [example_links, example_links] [] = [lit ''https://host/epstein/files/abc.pdf'']"
  using idempotent_accumulation [of example_links "[]"]
  by (simp add: extract_example_links Set_size_def scan_pages_def)

subsection \<open>The loop\<close>

lemma loop_body_eq:
  "loop_body site s =
     (if \<not> truthy (hasNextPage (site (clicks s)))
      then Inl (Exhausted, updateStatus last_page_status (scanned site s))
      else if 500 \<le> currentPage s
      then Inl (LimitReached, updateStatus safety_limit_status (scanned site s))
      else Inr (snd (goToNextPage (site (clicks s)) (scanned site s))))"
  by (auto simp: loop_body_def scanned_def Let_def updateStatus_def)

lemma updateStatus_fields [simp]:
  "allUrls (updateStatus m s) = allUrls s"
  "currentPage (updateStatus m s) = currentPage s"
  "foundFiles (updateStatus m s) = foundFiles s"
  "clicks (updateStatus m s) = clicks s"
  "console (updateStatus m s) = console s @ [m]"
  by (simp_all add: updateStatus_def)

lemma scanned_fields [simp]:
  "allUrls (scanned site s) = snd (extractUrlsFromCurrentPage (site (clicks s)) (allUrls s))"
  "currentPage (scanned site s) = currentPage s + 1"
  "clicks (scanned site s) = clicks s"
  "foundFiles (scanned site s) =
     foundFiles s + fst (extractUrlsFromCurrentPage (site (clicks s)) (allUrls s))"
  "console (scanned site s) =
     console s @ [page_status (currentPage s + 1)
        (fst (extractUrlsFromCurrentPage (site (clicks s)) (allUrls s)))
        (Set_size (snd (extractUrlsFromCurrentPage (site (clicks s)) (allUrls s))))]"
  by (simp_all add: scanned_def Let_def)

lemma truthy_iff: "truthy v = (v = JSBool True)"
  by (cases v) auto

lemma truthy_next_present: "truthy (hasNextPage doc) \<Longrightarrow> querySelector_next doc \<noteq> None"
  by (auto simp: hasNextPage_def split: option.splits)

lemma goToNextPage_present:
  "querySelector_next doc \<noteq> None \<Longrightarrow> goToNextPage doc s = (True, s\<lparr>clicks := clicks s + 1\<rparr>)"
  by (auto simp: goToNextPage_def split: option.splits)

lemma loop_body_continue:
  assumes "truthy (hasNextPage (site (clicks s)))" and "currentPage s < 500"
  shows "loop_body site s = Inr ((scanned site s)\<lparr>clicks := clicks s + 1\<rparr>)"
  using assms by (simp add: loop_body_eq goToNextPage_present [OF truthy_next_present])

lemma main_loop_Inl: "loop_body site s = Inl r \<Longrightarrow> main_loop site s = r"
  by (simp add: main_loop.simps)

lemma main_loop_Inr: "loop_body site s = Inr s' \<Longrightarrow> main_loop site s = main_loop site s'"
  by (simp add: main_loop.simps)

lemma iterations_Inl: "loop_body site s = Inl r \<Longrightarrow> iterations site s = 1"
  by (simp add: iterations.simps)

lemma iterations_Inr: "loop_body site s = Inr s' \<Longrightarrow> iterations site s = 1 + iterations site s'"
  by (simp add: iterations.simps)

lemma loop_body_Inl_fields:
  assumes "loop_body site s = Inl (t, s')"
  shows "currentPage s' = currentPage s + 1" and "clicks s' = clicks s"
    and "allUrls s' = snd (extractUrlsFromCurrentPage (site (clicks s)) (allUrls s))"
    and "length (console s') = length (console s) + 2"
  using assms by (auto simp: loop_body_eq split: if_splits)

lemma loop_body_Inr_fields:
  assumes "loop_body site s = Inr s'"
  shows "currentPage s' = currentPage s + 1" and "clicks s' = clicks s + 1"
    and "allUrls s' = snd (extractUrlsFromCurrentPage (site (clicks s)) (allUrls s))"
    and "length (console s') = length (console s) + 1"
    and "hasNextPage (site (clicks s)) = JSBool True"
  using assms
  by (auto simp: loop_body_eq truthy_iff goToNextPage_present [OF truthy_next_present]
           split: if_splits)

lemma main_loop_currentPage:
  "currentPage (snd (main_loop site s)) = currentPage s + iterations site s"
proof (induction site s rule: main_loop.induct)
  case (1 site s)
  show ?case
  proof (cases "loop_body site s")
    case (Inl r)
    then show ?thesis
      by (cases r) (simp add: main_loop_Inl iterations_Inl loop_body_Inl_fields)
  next
    case (Inr s')
    with "1.IH" [OF Inr] show ?thesis
      by (simp add: main_loop_Inr iterations_Inr loop_body_Inr_fields)
  qed
qed

lemma main_loop_clicks:
  "clicks (snd (main_loop site s)) + 1 = clicks s + iterations site s"
proof (induction site s rule: main_loop.induct)
  case (1 site s)
  show ?case
  proof (cases "loop_body site s")
    case (Inl r)
    then show ?thesis
      by (cases r) (simp add: main_loop_Inl iterations_Inl loop_body_Inl_fields)
  next
    case (Inr s')
    with "1.IH" [OF Inr] show ?thesis
      by (simp add: main_loop_Inr iterations_Inr loop_body_Inr_fields)
  qed
qed

lemma main_loop_console:
  "length (console (snd (main_loop site s))) = length (console s) + iterations site s + 1"
proof (induction site s rule: main_loop.induct)
  case (1 site s)
  show ?case
  proof (cases "loop_body site s")
    case (Inl r)
    then show ?thesis
      by (cases r) (simp add: main_loop_Inl iterations_Inl loop_body_Inl_fields)
  next
    case (Inr s')
    with "1.IH" [OF Inr] show ?thesis
      by (simp add: main_loop_Inr iterations_Inr loop_body_Inr_fields)
  qed
qed

lemma scan_pages_Cons:
  "scan_pages (doc # docs) urls = scan_pages docs (snd (extractUrlsFromCurrentPage doc urls))"
  by (simp add: scan_pages_def)

lemma upt_shift: "[a ..< a + (1 + k)] = a # [a + 1 ..< a + 1 + k]"
  by (simp add: upt_conv_Cons)

lemma main_loop_allUrls:
  "allUrls (snd (main_loop site s)) =
     scan_pages (map site [clicks s ..< clicks s + iterations site s]) (allUrls s)"
proof (induction site s rule: main_loop.induct)
  case (1 site s)
  show ?case
  proof (cases "loop_body site s")
    case (Inl r)
    then show ?thesis
      by (cases r) (simp add: main_loop_Inl iterations_Inl loop_body_Inl_fields scan_pages_def)
  next
    case (Inr s')
    have "allUrls (snd (main_loop site s)) = allUrls (snd (main_loop site s'))"
      by (simp add: main_loop_Inr [OF Inr])
    also have "\<dots> = scan_pages (map site [clicks s' ..< clicks s' + iterations site s']) (allUrls s')"
      by (rule "1.IH" [OF Inr])
    also have "\<dots> = scan_pages (map site [clicks s ..< clicks s + iterations site s]) (allUrls s)"
      unfolding iterations_Inr [OF Inr] upt_shift loop_body_Inr_fields [OF Inr]
      by (simp add: scan_pages_Cons)
    finally show ?thesis .
  qed
qed

lemma main_loop_exhausted:
  assumes "\<forall>i<n. truthy (hasNextPage (site (clicks s + i)))"
    and "\<not> truthy (hasNextPage (site (clicks s + n)))"
    and "currentPage s + n \<le> 500"
  shows "fst (main_loop site s) = Exhausted \<and> iterations site s = n + 1"
  using assms
proof (induction n arbitrary: s)
  case 0
  then have "loop_body site s = Inl (Exhausted, updateStatus last_page_status (scanned site s))"
    by (simp add: loop_body_eq)
  then show ?case
    by (simp add: main_loop_Inl iterations_Inl)
next
  case (Suc n)
  let ?s' = "(scanned site s)\<lparr>clicks := clicks s + 1\<rparr>"
  from Suc.prems have t: "truthy (hasNextPage (site (clicks s)))" and c: "currentPage s < 500"
    by force+
  then have step: "loop_body site s = Inr ?s'"
    by (rule loop_body_continue)
  have "fst (main_loop site ?s') = Exhausted \<and> iterations site ?s' = n + 1"
  proof (rule Suc.IH)
    show "\<forall>i<n. truthy (hasNextPage (site (clicks ?s' + i)))"
      using Suc.prems(1) by (auto dest: spec [of _ "Suc _"])
    show "\<not> truthy (hasNextPage (site (clicks ?s' + n)))"
      using Suc.prems(2) by simp
    show "currentPage ?s' + n \<le> 500"
      using Suc.prems(3) by simp
  qed
  with step show ?case
    by (simp add: main_loop_Inr iterations_Inr)
qed

lemma main_loop_limit:
  assumes "\<forall>i\<le>n. truthy (hasNextPage (site (clicks s + i)))"
    and "currentPage s + n = 500"
  shows "fst (main_loop site s) = LimitReached \<and> iterations site s = n + 1"
  using assms
proof (induction n arbitrary: s)
  case 0
  then have "loop_body site s = Inl (LimitReached, updateStatus safety_limit_status (scanned site s))"
    by (simp add: loop_body_eq)
  then show ?case
    by (simp add: main_loop_Inl iterations_Inl)
next
  case (Suc n)
  let ?s' = "(scanned site s)\<lparr>clicks := clicks s + 1\<rparr>"
  from Suc.prems have t: "truthy (hasNextPage (site (clicks s)))" and c: "currentPage s < 500"
    by force+
  then have step: "loop_body site s = Inr ?s'"
    by (rule loop_body_continue)
  have "fst (main_loop site ?s') = LimitReached \<and> iterations site ?s' = n + 1"
  proof (rule Suc.IH)
    show "\<forall>i\<le>n. truthy (hasNextPage (site (clicks ?s' + i)))"
      using Suc.prems(1) by (auto dest: spec [of _ "Suc _"])
    show "currentPage ?s' + n = 500"
      using Suc.prems(2) by simp
  qed
  with step show ?case
    by (simp add: main_loop_Inr iterations_Inr)
qed

lemma hasNextPage_enabled: "hasNextPage [next_control []] = JSBool True"
  by (simp add: hasNextPage_def querySelector_next_def next_control_def contains_def)

lemma hasNextPage_empty: "hasNextPage [] = JSNull"
  by (simp add: hasNextPage_def querySelector_next_def)

text \<open>
  C2 (safety bound). When \<open>hasNextPage\<close> returns true on every page, the loop ends in the
  limit-reached state after exactly 501 iterations: the page cursor stands at 501, the
  next-page control was clicked 500 times, and the set is what scanning the first 501
  documents (and no other) gives.
\<close>

theorem safety_bound:
  assumes "\<forall>n. hasNextPage (site n) = JSBool True"
  shows "fst (main_loop site initial_state) = LimitReached
       \<and> fst (run site) = LimitReached
       \<and> iterations site initial_state = 501
       \<and> currentPage (snd (main_loop site initial_state)) = 501
       \<and> clicks (snd (main_loop site initial_state)) = 500
       \<and> allUrls (snd (main_loop site initial_state)) = scan_pages (map site [0..<501]) []"
proof -
  have "\<forall>i\<le>500. truthy (hasNextPage (site (clicks initial_state + i)))"
    using assms by simp
  moreover have "currentPage initial_state + 500 = 500"
    by (simp add: initial_state_def)
  ultimately have a: "fst (main_loop site initial_state) = LimitReached
      \<and> iterations site initial_state = 500 + 1"
    by (rule main_loop_limit)
  have b: "currentPage (snd (main_loop site initial_state)) = 501"
    using a by (simp add: main_loop_currentPage initial_state_def)
  have c: "clicks (snd (main_loop site initial_state)) = 500"
    using a main_loop_clicks [of site initial_state] by (simp add: initial_state_def)
  have d: "allUrls (snd (main_loop site initial_state)) = scan_pages (map site [0..<501]) []"
    using a main_loop_allUrls [of site initial_state] by (simp add: initial_state_def)
  from a b c d show ?thesis
    by (simp add: run_def Let_def)
qed

theorem safety_bound_witness:
  "hasNextPage (endless_site 7) = JSBool True
   \<and> fst (main_loop endless_site initial_state) = LimitReached
   \<and> iterations endless_site initial_state = 501
   \<and> currentPage (snd (main_loop endless_site initial_state)) = 501
   \<and> clicks (snd (main_loop endless_site initial_state)) = 500"
proof -
  have h: "\<forall>n. hasNextPage (endless_site n) = JSBool True"
    by (simp add: endless_site_def hasNextPage_enabled)
  show ?thesis
    using safety_bound [OF h] h by simp
qed

text \<open>
  C3 (termination guarantee). When \<open>hasNextPage\<close> returns true on the first \<open>k - 1\<close> pages
  and a falsy value on page \<open>k\<close>, with \<open>1 \<le> k \<le> 501\<close>, the loop ends in the exhausted
  state after exactly \<open>k\<close> iterations: the page cursor stands at \<open>k\<close>, the control was
  clicked \<open>k - 1\<close> times, and the set is what scanning the first \<open>k\<close> documents, each
  once, gives.
\<close>

theorem termination_guarantee:
  assumes "1 \<le> k" and "k \<le> 501"
    and "\<forall>i<k - 1. hasNextPage (site i) = JSBool True"
    and "\<not> truthy (hasNextPage (site (k - 1)))"
  shows "fst (main_loop site initial_state) = Exhausted
       \<and> fst (run site) = Exhausted
       \<and> iterations site initial_state = k
       \<and> currentPage (snd (main_loop site initial_state)) = k
       \<and> clicks (snd (main_loop site initial_state)) = k - 1
       \<and> allUrls (snd (main_loop site initial_state)) = scan_pages (map site [0..<k]) []"
proof -
  have "\<forall>i<k - 1. truthy (hasNextPage (site (clicks initial_state + i)))"
    using assms(3) by (simp add: initial_state_def)
  moreover have "\<not> truthy (hasNextPage (site (clicks initial_state + (k - 1))))"
    using assms(4) by (simp add: initial_state_def)
  moreover have "currentPage initial_state + (k - 1) \<le> 500"
    using assms(2) by (simp add: initial_state_def)
  ultimately have "fst (main_loop site initial_state) = Exhausted
      \<and> iterations site initial_state = k - 1 + 1"
    by (rule main_loop_exhausted)
  with assms(1) have a: "fst (main_loop site initial_state) = Exhausted
      \<and> iterations site initial_state = k"
    by simp
  have b: "currentPage (snd (main_loop site initial_state)) = k"
    using a by (simp add: main_loop_currentPage initial_state_def)
  have c: "clicks (snd (main_loop site initial_state)) = k - 1"
    using a main_loop_clicks [of site initial_state] by (simp add: initial_state_def)
  have d: "allUrls (snd (main_loop site initial_state)) = scan_pages (map site [0..<k]) []"
    using a main_loop_allUrls [of site initial_state] by (simp add: initial_state_def)
  from a b c d show ?thesis
    by (simp add: run_def Let_def)
qed

theorem termination_guarantee_witness:
  "hasNextPage (site_of_501_pages 499) = JSBool True
   \<and> \<not> truthy (hasNextPage (site_of_501_pages 500))
   \<and> fst (main_loop site_of_501_pages initial_state) = Exhausted
   \<and> iterations site_of_501_pages initial_state = 501
   \<and> currentPage (snd (main_loop site_of_501_pages initial_state)) = 501
   \<and> clicks (snd (main_loop site_of_501_pages initial_state)) = 500"
proof -
  have h: "\<forall>i<501 - 1. hasNextPage (site_of_501_pages i) = JSBool True"
    by (simp add: site_of_501_pages_def hasNextPage_enabled)
  have e: "\<not> truthy (hasNextPage (site_of_501_pages (501 - 1)))"
    by (simp add: site_of_501_pages_def hasNextPage_empty)
  have k: "(1::nat) \<le> 501" "(501::nat) \<le> 501"
    by simp_all
  show ?thesis
    using termination_guarantee [OF k h e] h e by simp
qed

subsection \<open>The output\<close>







subsection \<open>The status line\<close>

lemma console_loop_body:
  "take (length (console s) + 1) (console (state_of (loop_body site s))) = console (scanned site s)"
  by (simp add: loop_body_eq state_of_def goToNextPage_def split: option.splits)

lemma digit_unit:
  assumes "k < 10"
  shows "unat (of_nat (48 + k) :: code_unit) = 48 + k"
proof -
  have "unat (of_nat (48 + k) :: code_unit) = (48 + k) mod 2 ^ LENGTH(16)"
    by (rule unat_of_nat)
  also have "\<dots> = 48 + k"
    using assms by simp
  finally show ?thesis .
qed

lemma is_digit_unit: "k < 10 \<Longrightarrow> is_digit (of_nat (48 + k))"
  using digit_unit [of k] by (simp add: is_digit_def word_le_nat_alt del: of_nat_add)

lemma toString_digits: "\<forall>d \<in> set (toString n). is_digit d"
proof (induction n rule: toString.induct)
  case (1 n)
  show ?case
  proof (cases "n < 10")
    case True
    then show ?thesis
      by (subst toString.simps) (simp add: is_digit_unit del: of_nat_add)
  next
    case False
    with "1.IH" show ?thesis
      by (subst toString.simps) (simp add: is_digit_unit del: of_nat_add)
  qed
qed

lemma decimal_value_snoc:
  "decimal_value (ds @ [d]) = 10 * decimal_value ds + (unat d - 48)"
  by (simp add: decimal_value_def)

lemma decimal_value_toString: "decimal_value (toString n) = n"
proof (induction n rule: toString.induct)
  case (1 n)
  show ?case
  proof (cases "n < 10")
    case True
    then show ?thesis
      by (subst toString.simps) (simp add: decimal_value_def digit_unit del: of_nat_add)
  next
    case False
    with "1.IH" show ?thesis
      by (subst toString.simps) (simp add: decimal_value_snoc digit_unit del: of_nat_add)
  qed
qed

lemma toString_inject: "toString m = toString n \<Longrightarrow> m = n"
  by (metis decimal_value_toString)

lemma digits_split:
  assumes "\<forall>d \<in> set a. is_digit d" and "\<forall>d \<in> set b. is_digit d"
    and "\<not> is_digit x" and "\<not> is_digit y"
    and "a @ x # r = b @ y # t"
  shows "a = b \<and> r = t"
  using assms
proof (induction a arbitrary: b)
  case Nil
  then show ?case by (cases b) auto
next
  case (Cons c a)
  then show ?case by (cases b) auto
qed

lemma page_status_inject:
  assumes "page_status p c u = page_status p' c' u'"
  shows "p = p' \<and> c = c' \<and> u = u'"
proof -
  have l1: "lit '': Found '' = 58 # lit '' Found ''"
    and l2: "lit '' files (Total: '' = 32 # lit ''files (Total: ''"
    and l3: "lit '' unique URLs)'' = 32 # lit ''unique URLs)''"
    by (simp_all add: lit_def)
  have nd: "\<not> is_digit 58" "\<not> is_digit 32"
    by (simp_all add: is_digit_def)
  from assms have
    "toString p @ 58 # (lit '' Found '' @ toString c @ lit '' files (Total: '' @ toString u @ lit '' unique URLs)'') =
     toString p' @ 58 # (lit '' Found '' @ toString c' @ lit '' files (Total: '' @ toString u' @ lit '' unique URLs)'')"
    by (simp add: page_status_def l1)
  with toString_digits [of p] toString_digits [of p'] nd(1)
  have a: "toString p = toString p'"
    and "lit '' Found '' @ toString c @ lit '' files (Total: '' @ toString u @ lit '' unique URLs)'' =
      lit '' Found '' @ toString c' @ lit '' files (Total: '' @ toString u' @ lit '' unique URLs)''"
    using digits_split by blast+
  then have
    "toString c @ 32 # (lit ''files (Total: '' @ toString u @ lit '' unique URLs)'') =
     toString c' @ 32 # (lit ''files (Total: '' @ toString u' @ lit '' unique URLs)'')"
    by (simp add: l2)
  with toString_digits [of c] toString_digits [of c'] nd(2)
  have b: "toString c = toString c'"
    and "lit ''files (Total: '' @ toString u @ lit '' unique URLs)'' =
      lit ''files (Total: '' @ toString u' @ lit '' unique URLs)''"
    using digits_split by blast+
  then have "toString u = toString u'"
    by simp
  with a b show ?thesis
    by (simp add: toString_inject)
qed

lemma statusHtml_loop_body:
  "prefix (statusHtml (scanned site s)) (statusHtml (state_of (loop_body site s)))"
  by (simp add: loop_body_eq state_of_def goToNextPage_def updateStatus_def split: option.splits)

lemma statusHtml_scanned:
  "statusHtml (scanned site s) =
     statusHtml s @ lit ''<br>'' @
     page_status (currentPage s + 1)
       (fst (extractUrlsFromCurrentPage (site (clicks s)) (allUrls s)))
       (Set_size (snd (extractUrlsFromCurrentPage (site (clicks s)) (allUrls s))))"
  by (simp add: scanned_def Let_def updateStatus_def)

text \<open>
  C5 (per-page reporting). The number \<open>extractUrlsFromCurrentPage\<close> returns is the number
  of scanned links that pass both tests. It does not depend on the set the scan starts
  from, so links whose URL is in the set already are counted, and the growth of the set
  is at most this number. The status line a loop iteration writes after its scan, to the
  console and to the panel, is \<open>Page\<close>, the page cursor, \<open>: Found\<close>, this count,
  \<open>files (Total:\<close>, the size of the set after the scan, \<open>unique URLs)\<close>. The numbers
  are written as decimal numerals that read back as the numbers, and two status lines
  are equal only when cursor, count and size are: the line tells the count.
\<close>

theorem per_page_count:
  "fst (extractUrlsFromCurrentPage doc urls) =
     length (filter (\<lambda>l. url_matches (href l)) (querySelectorAll_pdf doc))
   \<and> fst (extractUrlsFromCurrentPage doc urls) = fst (extractUrlsFromCurrentPage doc [])
   \<and> Set_size (snd (extractUrlsFromCurrentPage doc urls)) - Set_size urls
       \<le> fst (extractUrlsFromCurrentPage doc urls)
   \<and> take (length (console s) + 1) (console (state_of (loop_body site s))) =
       console s @
       [lit ''Page '' @ toString (currentPage s + 1) @ lit '': Found '' @
        toString (fst (extractUrlsFromCurrentPage (site (clicks s)) (allUrls s))) @
        lit '' files (Total: '' @
        toString (Set_size (snd (extractUrlsFromCurrentPage (site (clicks s)) (allUrls s)))) @
        lit '' unique URLs)'']
   \<and> prefix
        (statusHtml s @ lit ''<br>'' @
         lit ''Page '' @ toString (currentPage s + 1) @ lit '': Found '' @
         toString (fst (extractUrlsFromCurrentPage (site (clicks s)) (allUrls s))) @
         lit '' files (Total: '' @
         toString (Set_size (snd (extractUrlsFromCurrentPage (site (clicks s)) (allUrls s)))) @
         lit '' unique URLs)'')
        (statusHtml (state_of (loop_body site s)))
   \<and> (\<forall>d \<in> set (toString n). is_digit d) \<and> decimal_value (toString n) = n
   \<and> (page_status p c u = page_status p' c' u' \<longrightarrow> p = p' \<and> c = c' \<and> u = u')"
proof (intro conjI impI)
  show "fst (extractUrlsFromCurrentPage doc urls) =
     length (filter (\<lambda>l. url_matches (href l)) (querySelectorAll_pdf doc))"
    by (rule fst_extract)
  show "fst (extractUrlsFromCurrentPage doc urls) = fst (extractUrlsFromCurrentPage doc [])"
    by (simp add: fst_extract)
  show "Set_size (snd (extractUrlsFromCurrentPage doc urls)) - Set_size urls
       \<le> fst (extractUrlsFromCurrentPage doc urls)"
    using size_extract [of doc urls] by simp
  show "take (length (console s) + 1) (console (state_of (loop_body site s))) =
       console s @
       [lit ''Page '' @ toString (currentPage s + 1) @ lit '': Found '' @
        toString (fst (extractUrlsFromCurrentPage (site (clicks s)) (allUrls s))) @
        lit '' files (Total: '' @
        toString (Set_size (snd (extractUrlsFromCurrentPage (site (clicks s)) (allUrls s)))) @
        lit '' unique URLs)'']"
    by (simp only: console_loop_body scanned_fields page_status_def)
  show "prefix
        (statusHtml s @ lit ''<br>'' @
         lit ''Page '' @ toString (currentPage s + 1) @ lit '': Found '' @
         toString (fst (extractUrlsFromCurrentPage (site (clicks s)) (allUrls s))) @
         lit '' files (Total: '' @
         toString (Set_size (snd (extractUrlsFromCurrentPage (site (clicks s)) (allUrls s)))) @
         lit '' unique URLs)'')
        (statusHtml (state_of (loop_body site s)))"
    using statusHtml_loop_body [of site s]
    by (simp only: statusHtml_scanned page_status_def append_assoc)
  show "\<forall>d \<in> set (toString n). is_digit d"
    by (rule toString_digits)
  show "decimal_value (toString n) = n"
    by (rule decimal_value_toString)
next
  assume "page_status p c u = page_status p' c' u'"
  then show "p = p'" and "c = c'" and "u = u'"
    by (simp_all add: page_status_inject)
qed

lemma extract_one_page:
  "extractUrlsFromCurrentPage (site_one_page (clicks initial_state)) (allUrls initial_state) =
     (3, [lit ''https://host/epstein/files/a.pdf'', lit ''https://host/epstein/files/b.pdf''])"
  by code_simp

lemma status_line_one_page:
  "lit ''Page '' @ toString (0 + 1) @ lit '': Found '' @ toString 3 @ lit '' files (Total: '' @
     toString 2 @ lit '' unique URLs)'' = lit ''Page 1: Found 3 files (Total: 2 unique URLs)''"
  by code_simp

lemma status_line_seen:
  "lit ''Page '' @ toString (Suc (Suc 0)) @ lit '': Found '' @ toString (Suc 0) @
     lit '' files (Total: '' @ toString (Suc 0) @ lit '' unique URLs)'' =
   lit ''Page 2: Found 1 files (Total: 1 unique URLs)''"
  by code_simp

theorem per_page_count_witness:
  "fst (extractUrlsFromCurrentPage example_links [lit ''https://host/epstein/files/abc.pdf'']) = 1
   \<and> Set_size (snd (extractUrlsFromCurrentPage example_links [lit ''https://host/epstein/files/abc.pdf'']))
       - Set_size [lit ''https://host/epstein/files/abc.pdf''] = 0
   \<and> take 1 (console (state_of (loop_body (\<lambda>n. example_links) seen))) =
       [lit ''Page 2: Found 1 files (Total: 1 unique URLs)'']
   \<and> fst (extractUrlsFromCurrentPage (site_one_page 0) []) = 3
   \<and> Set_size (snd (extractUrlsFromCurrentPage (site_one_page 0) [])) = 2
   \<and> take 2 (console (state_of (loop_body site_one_page initial_state))) =
       [lit ''Starting DOJ File URL Extraction...'',
        lit ''Page 1: Found 3 files (Total: 2 unique URLs)'']
   \<and> page_status 1 3 2 \<noteq> page_status 1 2 3
   \<and> decimal_value (toString 501) = 501"
proof -
  note t1 = per_page_count [of example_links "[lit ''https://host/epstein/files/abc.pdf'']" seen
          "\<lambda>n. example_links"]
  have "take (length (console seen) + 1) (console (state_of (loop_body (\<lambda>n. example_links) seen))) =
       console seen @
       [lit ''Page '' @ toString (currentPage seen + 1) @ lit '': Found '' @
        toString (fst (extractUrlsFromCurrentPage ((\<lambda>n. example_links) (clicks seen)) (allUrls seen))) @
        lit '' files (Total: '' @
        toString (Set_size (snd (extractUrlsFromCurrentPage ((\<lambda>n. example_links) (clicks seen)) (allUrls seen)))) @
        lit '' unique URLs)'']"
    using t1 by blast
  moreover have "console seen = []" "currentPage seen + 1 = 2"
    "allUrls seen = [lit ''https://host/epstein/files/abc.pdf'']"
    by (simp_all add: seen_def)
  ultimately have a: "take 1 (console (state_of (loop_body (\<lambda>n. example_links) seen))) =
       [lit ''Page 2: Found 1 files (Total: 1 unique URLs)'']"
    by (simp add: extract_seen_example status_line_seen Set_size_def)
  have b: "fst (extractUrlsFromCurrentPage example_links [lit ''https://host/epstein/files/abc.pdf'']) = 1"
    "Set_size (snd (extractUrlsFromCurrentPage example_links [lit ''https://host/epstein/files/abc.pdf'']))
       - Set_size [lit ''https://host/epstein/files/abc.pdf''] = 0"
    by (simp_all add: extract_seen_example Set_size_def)
  note t2 = per_page_count [of _ _ initial_state site_one_page 501 1 3 2 1 2 3]
  have "take (length (console initial_state) + 1)
          (console (state_of (loop_body site_one_page initial_state))) =
       console initial_state @
       [lit ''Page '' @ toString (currentPage initial_state + 1) @ lit '': Found '' @
        toString (fst (extractUrlsFromCurrentPage (site_one_page (clicks initial_state))
           (allUrls initial_state))) @
        lit '' files (Total: '' @
        toString (Set_size (snd (extractUrlsFromCurrentPage (site_one_page (clicks initial_state))
           (allUrls initial_state)))) @
        lit '' unique URLs)'']"
    using t2 by blast
  moreover have "console initial_state = [lit ''Starting DOJ File URL Extraction...'']"
    "length (console initial_state) + 1 = 2" "currentPage initial_state = 0"
    by (simp_all add: initial_state_def)
  moreover have "Set_size [lit ''https://host/epstein/files/a.pdf'', lit ''https://host/epstein/files/b.pdf''] = 2"
    by (simp add: Set_size_def)
  ultimately have c: "take 2 (console (state_of (loop_body site_one_page initial_state))) =
       [lit ''Starting DOJ File URL Extraction...'',
        lit ''Page 1: Found 3 files (Total: 2 unique URLs)'']"
    by (simp only: extract_one_page fst_conv snd_conv status_line_one_page append_Cons append_Nil)
  have d: "fst (extractUrlsFromCurrentPage (site_one_page 0) []) = 3"
    "Set_size (snd (extractUrlsFromCurrentPage (site_one_page 0) [])) = 2"
    by code_simp+
  have e: "page_status 1 3 2 \<noteq> page_status 1 2 3"
    using t2 by auto
  have f: "decimal_value (toString 501) = 501"
    using t2 by blast
  from a b c d e f show ?thesis
    by (intro conjI)
qed

subsection \<open>The next-page control\<close>

lemma querySelector_next_None:
  "(querySelector_next doc = None) = (\<forall>a \<in> set doc. attr_aria_label a \<noteq> Some (lit ''Next page''))"
  by (auto simp: querySelector_next_def find_None_iff)

lemma hasNextPage_True_iff:
  "(hasNextPage doc = JSBool True) =
     (\<exists>b. querySelector_next doc = Some b \<and> \<not> contains (classList b) (lit ''disabled''))"
  by (auto simp: hasNextPage_def split: option.splits)

lemma hasNextPage_absent: "querySelector_next doc = None \<Longrightarrow> hasNextPage doc = JSNull"
  by (simp add: hasNextPage_def)

lemma hasNextPage_disabled:
  "querySelector_next doc = Some b \<Longrightarrow> contains (classList b) (lit ''disabled'') \<Longrightarrow>
   hasNextPage doc = JSBool False"
  by (simp add: hasNextPage_def)

text \<open>
  C7, as stated, fails on a document without the control: \<open>hasNextPage\<close> returns the
  value of \<open>nextButton && ...\<close>, which is \<open>null\<close> there, not \<open>false\<close>.
\<close>

theorem hasNextPage_absent_counterexample:
  "querySelector_next [] = None \<and> hasNextPage [] = JSNull \<and> hasNextPage [] \<noteq> JSBool False"
  by (simp add: hasNextPage_empty querySelector_next_def)

text \<open>
  C7 (amended). \<open>hasNextPage\<close> returns true exactly when the next-page control exists and
  does not carry the disabled marker. When the control exists and carries the marker it
  returns false. When no anchor of the document has the label, it returns \<open>null\<close>, a falsy
  value; no error is raised, and the loop, which only negates the result, treats every
  falsy result as "no next page": the iteration leaves the loop in the exhausted state.
\<close>

theorem hasNextPage_spec:
  "(hasNextPage doc = JSBool True \<longleftrightarrow>
      (\<exists>b. querySelector_next doc = Some b \<and> \<not> contains (classList b) (lit ''disabled'')))
   \<and> (\<forall>b. querySelector_next doc = Some b \<and> contains (classList b) (lit ''disabled'') \<longrightarrow>
        hasNextPage doc = JSBool False)
   \<and> ((\<forall>a \<in> set doc. attr_aria_label a \<noteq> Some (lit ''Next page'')) \<longrightarrow>
        hasNextPage doc = JSNull \<and> \<not> truthy (hasNextPage doc))
   \<and> (\<not> truthy (hasNextPage (site (clicks s))) \<longrightarrow> (\<exists>s'. loop_body site s = Inl (Exhausted, s')))"
proof (intro conjI impI allI)
  show "hasNextPage doc = JSBool True \<longleftrightarrow>
      (\<exists>b. querySelector_next doc = Some b \<and> \<not> contains (classList b) (lit ''disabled''))"
    by (rule hasNextPage_True_iff)
next
  fix b
  assume "querySelector_next doc = Some b \<and> contains (classList b) (lit ''disabled'')"
  then show "hasNextPage doc = JSBool False"
    by (simp add: hasNextPage_disabled)
next
  assume "\<forall>a \<in> set doc. attr_aria_label a \<noteq> Some (lit ''Next page'')"
  then have "querySelector_next doc = None"
    by (simp add: querySelector_next_None)
  then show "hasNextPage doc = JSNull" and "\<not> truthy (hasNextPage doc)"
    by (simp_all add: hasNextPage_absent)
next
  assume "\<not> truthy (hasNextPage (site (clicks s)))"
  then show "\<exists>s'. loop_body site s = Inl (Exhausted, s')"
    by (simp add: loop_body_eq)
qed

theorem hasNextPage_spec_witness:
  "hasNextPage example_links = JSNull
   \<and> \<not> truthy (hasNextPage example_links)
   \<and> (\<exists>s'. loop_body (\<lambda>n. example_links) initial_state = Inl (Exhausted, s'))
   \<and> hasNextPage [next_control []] = JSBool True
   \<and> hasNextPage [next_control [''disabled'']] = JSBool False"
proof -
  have a: "\<forall>a \<in> set example_links. attr_aria_label a \<noteq> Some (lit ''Next page'')"
    by (simp add: example_links_def link_to_def)
  have n: "hasNextPage example_links = JSNull" "\<not> truthy (hasNextPage example_links)"
    using hasNextPage_spec [of example_links] a by blast+
  then have "\<not> truthy (hasNextPage ((\<lambda>n. example_links) (clicks initial_state)))"
    by simp
  then have l: "\<exists>s'. loop_body (\<lambda>n. example_links) initial_state = Inl (Exhausted, s')"
    using hasNextPage_spec [of example_links "\<lambda>n. example_links" initial_state] by blast
  have q: "querySelector_next [next_control [''disabled'']] = Some (next_control [''disabled''])"
    by (simp add: querySelector_next_def next_control_def)
  have c: "contains (classList (next_control [''disabled''])) (lit ''disabled'')"
    by (simp add: contains_def next_control_def)
  have d: "hasNextPage [next_control [''disabled'']] = JSBool False"
    using hasNextPage_spec [of "[next_control [''disabled'']]"] q c by blast
  from n l d show ?thesis
    by (simp add: hasNextPage_enabled)
qed

subsection \<open>The growth of the set\<close>

lemma loop_body_prefix: "prefix (allUrls s) (allUrls (state_of (loop_body site s)))"
  by (simp add: loop_body_eq state_of_def goToNextPage_def prefix_extract split: option.splits)

lemma main_loop_prefix: "prefix (allUrls s) (allUrls (snd (main_loop site s)))"
proof (induction site s rule: main_loop.induct)
  case (1 site s)
  show ?case
  proof (cases "loop_body site s")
    case (Inl r)
    with loop_body_prefix [of s site] show ?thesis
      by (simp add: main_loop_Inl state_of_def)
  next
    case (Inr s')
    with loop_body_prefix [of s site] have "prefix (allUrls s) (allUrls s')"
      by (simp add: state_of_def)
    also have "prefix (allUrls s') (allUrls (snd (main_loop site s')))"
      by (rule "1.IH" [OF Inr])
    finally show ?thesis
      by (simp add: main_loop_Inr [OF Inr])
  qed
qed

lemma matches_extract:
  "\<forall>u \<in> set urls. url_matches u \<Longrightarrow>
   \<forall>u \<in> set (snd (extractUrlsFromCurrentPage doc urls)). url_matches u"
  by (auto simp: set_extract)

lemma reachable_invariant:
  "reachable site s \<Longrightarrow> distinct (allUrls s) \<and> (\<forall>u \<in> set (allUrls s). url_matches u)"
proof (induction rule: reachable.induct)
  case start
  show ?case by (simp add: initial_state_def)
next
  case (iterate s s')
  then show ?case
    using matches_extract [of "allUrls s" "site (clicks s)"]
    by (simp add: loop_body_Inr_fields distinct_extract)
next
  case (leave s t s')
  then show ?case
    using matches_extract [of "allUrls s" "site (clicks s)"]
    by (simp add: loop_body_Inl_fields distinct_extract)
qed

lemma reachable_main_loop: "reachable site s \<Longrightarrow> reachable site (snd (main_loop site s))"
proof (induction site s rule: main_loop.induct)
  case (1 site s)
  show ?case
  proof (cases "loop_body site s")
    case (Inl r)
    with "1.prems" show ?thesis
      by (cases r) (auto simp: main_loop_Inl intro: reachable.leave)
  next
    case (Inr s')
    with "1.prems" have "reachable site s'"
      by (rule reachable.iterate)
    then have "reachable site (snd (main_loop site s'))"
      by (rule "1.IH" [OF Inr])
    then show ?thesis
      by (simp add: main_loop_Inr [OF Inr])
  qed
qed

lemma finalize_allUrls: "allUrls (fst (finalize s)) = allUrls s"
  by (simp add: finalize_def Let_def)

lemma finalize_content: "content (snd (finalize s)) = urlList (allUrls s)"
  by (simp add: finalize_def Let_def)

text \<open>
  C8 (monotone growth). A loop iteration leaves the set it found as a prefix of the set
  it ends with: it appends, and removes or replaces nothing; so does the whole loop. In
  every state the loop reaches, the set has no duplicates and each of its elements
  contains \<open>/epstein/files/\<close> and ends with \<open>.pdf\<close>. The finalization leaves the set as
  the loop left it, and the file's content is the serialization of that set.
\<close>

theorem monotone_growth:
  "prefix (allUrls s) (allUrls (state_of (loop_body site s)))
   \<and> prefix (allUrls s) (allUrls (snd (main_loop site s)))
   \<and> (reachable site s \<longrightarrow>
        distinct (allUrls s) \<and>
        (\<forall>u \<in> set (allUrls s). sublist (lit ''/epstein/files/'') u \<and> suffix (lit ''.pdf'') u))
   \<and> reachable site (snd (main_loop site initial_state))
   \<and> allUrls (fst (finalize s)) = allUrls s
   \<and> allUrls (fst (snd (run site))) = allUrls (snd (main_loop site initial_state))
   \<and> content (snd (snd (run site))) = urlList (allUrls (snd (main_loop site initial_state)))"
proof (intro conjI impI)
  show "prefix (allUrls s) (allUrls (state_of (loop_body site s)))"
    by (rule loop_body_prefix)
  show "prefix (allUrls s) (allUrls (snd (main_loop site s)))"
    by (rule main_loop_prefix)
  show "reachable site (snd (main_loop site initial_state))"
    by (rule reachable_main_loop) (rule reachable.start)
  show "allUrls (fst (finalize s)) = allUrls s"
    by (rule finalize_allUrls)
  show "allUrls (fst (snd (run site))) = allUrls (snd (main_loop site initial_state))"
    by (simp add: run_def Let_def finalize_allUrls)
  show "content (snd (snd (run site))) = urlList (allUrls (snd (main_loop site initial_state)))"
    by (simp add: run_def Let_def finalize_content)
next
  assume r: "reachable site s"
  then show "distinct (allUrls s)"
    by (simp add: reachable_invariant)
  from r show "\<forall>u \<in> set (allUrls s). sublist (lit ''/epstein/files/'') u \<and> suffix (lit ''.pdf'') u"
    using reachable_invariant [of site s] by (simp add: url_matches_iff)
qed

lemma hasNextPage_listing: "hasNextPage (listing_site n) = JSBool True"
  by code_simp

lemma extract_listing:
  "extractUrlsFromCurrentPage (listing_site n) [] = (1, [lit ''https://host/epstein/files/abc.pdf''])"
  by code_simp

lemma loop_body_listing:
  "loop_body listing_site initial_state = Inr ((scanned listing_site initial_state)\<lparr>clicks := 1\<rparr>)"
  using loop_body_continue [of listing_site initial_state]
  by (simp add: hasNextPage_listing initial_state_def)

theorem monotone_growth_witness:
  "reachable listing_site ((scanned listing_site initial_state)\<lparr>clicks := 1\<rparr>)
   \<and> allUrls ((scanned listing_site initial_state)\<lparr>clicks := 1\<rparr>) =
       [lit ''https://host/epstein/files/abc.pdf'']
   \<and> sublist (lit ''/epstein/files/'') (lit ''https://host/epstein/files/abc.pdf'')
   \<and> suffix (lit ''.pdf'') (lit ''https://host/epstein/files/abc.pdf'')"
proof -
  let ?s = "(scanned listing_site initial_state)\<lparr>clicks := 1\<rparr>"
  have r: "reachable listing_site ?s"
    using reachable.start loop_body_listing by (rule reachable.iterate)
  have a: "allUrls ?s = [lit ''https://host/epstein/files/abc.pdf'']"
    by (simp add: initial_state_def extract_listing)
  from monotone_growth [of ?s listing_site] r
  have "\<forall>u \<in> set (allUrls ?s). sublist (lit ''/epstein/files/'') u \<and> suffix (lit ''.pdf'') u"
    by blast
  with r a show ?thesis
    by simp
qed


subsection \<open>Advancing\<close>

lemma loop_body_no_advance:
  "hasNextPage (site (clicks s)) \<noteq> JSBool True \<Longrightarrow> clicks (state_of (loop_body site s)) = clicks s"
  by (simp add: loop_body_eq state_of_def truthy_iff)

lemma loop_body_advance:
  assumes "loop_body site s = Inr s'"
  shows "goToNextPage (site (clicks s)) (scanned site s) = (True, s')"
proof -
  from assms have t: "truthy (hasNextPage (site (clicks s)))" and c: "currentPage s < 500"
    by (auto simp: loop_body_eq split: if_splits)
  then have "loop_body site s = Inr ((scanned site s)\<lparr>clicks := clicks s + 1\<rparr>)"
    by (rule loop_body_continue)
  with assms have "s' = (scanned site s)\<lparr>clicks := clicks s + 1\<rparr>"
    by simp
  then show ?thesis
    using goToNextPage_present [OF truthy_next_present [OF t], of "scanned site s"] by simp
qed

text \<open>
  C9 (every advance clicks). When an iteration goes round again, \<open>hasNextPage\<close> has
  returned true on the document of that iteration, the call of \<open>goToNextPage\<close> on the same
  document has found the control, clicked it and returned true, and the click count has
  grown by one; when \<open>hasNextPage\<close> has not returned true, the iteration clicks nothing.
  \<open>goToNextPage\<close> by itself clicks whenever the control is present, disabled or not, and
  returns false without clicking only when it is absent, which the loop never meets. Over
  a whole run the clicks are one fewer than the pages scanned.
\<close>

theorem advance_clicks:
  "(loop_body site s = Inr s' \<longrightarrow>
      hasNextPage (site (clicks s)) = JSBool True
      \<and> goToNextPage (site (clicks s)) (scanned site s) = (True, s')
      \<and> clicks s' = clicks s + 1)
   \<and> (hasNextPage (site (clicks s)) \<noteq> JSBool True \<longrightarrow>
        clicks (state_of (loop_body site s)) = clicks s)
   \<and> (querySelector_next doc = Some b \<longrightarrow> goToNextPage doc s = (True, s\<lparr>clicks := clicks s + 1\<rparr>))
   \<and> (querySelector_next doc = None \<longrightarrow> goToNextPage doc s = (False, s))
   \<and> clicks (snd (main_loop site initial_state)) + 1 =
       currentPage (snd (main_loop site initial_state))"
proof (intro conjI impI)
  assume a: "loop_body site s = Inr s'"
  then show "hasNextPage (site (clicks s)) = JSBool True" and "clicks s' = clicks s + 1"
    by (simp_all add: loop_body_Inr_fields)
  from a show "goToNextPage (site (clicks s)) (scanned site s) = (True, s')"
    by (rule loop_body_advance)
next
  assume "hasNextPage (site (clicks s)) \<noteq> JSBool True"
  then show "clicks (state_of (loop_body site s)) = clicks s"
    by (rule loop_body_no_advance)
next
  assume "querySelector_next doc = Some b"
  then show "goToNextPage doc s = (True, s\<lparr>clicks := clicks s + 1\<rparr>)"
    by (simp add: goToNextPage_def)
next
  assume "querySelector_next doc = None"
  then show "goToNextPage doc s = (False, s)"
    by (simp add: goToNextPage_def)
next
  show "clicks (snd (main_loop site initial_state)) + 1 =
       currentPage (snd (main_loop site initial_state))"
    using main_loop_clicks [of site initial_state] main_loop_currentPage [of site initial_state]
    by (simp add: initial_state_def)
qed

theorem advance_clicks_witness:
  "loop_body listing_site initial_state = Inr ((scanned listing_site initial_state)\<lparr>clicks := 1\<rparr>)
   \<and> hasNextPage (listing_site 0) = JSBool True
   \<and> goToNextPage (listing_site 0) (scanned listing_site initial_state) =
       (True, (scanned listing_site initial_state)\<lparr>clicks := 1\<rparr>)
   \<and> hasNextPage example_links \<noteq> JSBool True
   \<and> clicks (state_of (loop_body (\<lambda>n. example_links) initial_state)) = 0
   \<and> querySelector_next example_links = None
   \<and> goToNextPage example_links initial_state = (False, initial_state)
   \<and> querySelector_next [next_control [''disabled'']] = Some (next_control [''disabled''])
   \<and> contains (classList (next_control [''disabled''])) (lit ''disabled'')
   \<and> goToNextPage [next_control [''disabled'']] initial_state = (True, initial_state\<lparr>clicks := 1\<rparr>)"
proof -
  let ?s' = "(scanned listing_site initial_state)\<lparr>clicks := 1\<rparr>"
  have c0: "clicks initial_state = 0"
    by (simp add: initial_state_def)
  have a: "hasNextPage (listing_site 0) = JSBool True
      \<and> goToNextPage (listing_site 0) (scanned listing_site initial_state) = (True, ?s')"
    using advance_clicks [of listing_site initial_state ?s'] loop_body_listing c0 by simp
  have n: "hasNextPage example_links \<noteq> JSBool True"
    by (simp add: hasNextPage_def querySelector_next_def example_links_def link_to_def)
  have b: "clicks (state_of (loop_body (\<lambda>n. example_links) initial_state)) = 0"
    using advance_clicks [of "\<lambda>n. example_links" initial_state] n c0 by simp
  have q0: "querySelector_next example_links = None"
    by (simp add: querySelector_next_def example_links_def link_to_def)
  have g0: "goToNextPage example_links initial_state = (False, initial_state)"
    using advance_clicks [of _ initial_state _ example_links] q0 by simp
  have q: "querySelector_next [next_control [''disabled'']] = Some (next_control [''disabled''])"
    by (simp add: querySelector_next_def next_control_def)
  have d: "contains (classList (next_control [''disabled''])) (lit ''disabled'')"
    by (simp add: contains_def next_control_def)
  have g: "goToNextPage [next_control [''disabled'']] initial_state = (True, initial_state\<lparr>clicks := 1\<rparr>)"
    using advance_clicks [of _ initial_state _ "[next_control [''disabled'']]"
            "next_control [''disabled'']"] q c0
    by simp
  from loop_body_listing a n b q0 g0 q d g show ?thesis
    by (intro conjI) simp_all
qed

subsection \<open>The artifact as a function of the set\<close>

lemma page_urls_eq:
  "page_urls doc = href ` {l \<in> set (querySelectorAll_pdf doc). url_matches (href l)}"
  by (auto simp: page_urls_def)

lemma set_scan_pages: "set (scan_pages docs urls) = set urls \<union> \<Union> (page_urls ` set docs)"
proof (induction docs arbitrary: urls)
  case Nil
  show ?case by (simp add: scan_pages_def)
next
  case (Cons doc docs)
  show ?case
    unfolding scan_pages_Cons Cons.IH set_extract page_urls_eq by auto
qed

lemma distinct_scan_pages: "distinct urls \<Longrightarrow> distinct (scan_pages docs urls)"
  by (induction docs arbitrary: urls) (simp_all add: scan_pages_def distinct_extract)

lemma urlList_set_cong:
  assumes "distinct xs" and "distinct ys" and "set xs = set ys"
  shows "urlList xs = urlList ys"
proof -
  have "sort xs = sort ys"
    using assms by (intro sorted_distinct_set_unique) simp_all
  then show ?thesis
    by (simp add: urlList_def)
qed

lemma run_content:
  "content (snd (snd (run site))) = urlList (scan_pages (pages_visited site) [])"
  using main_loop_allUrls [of site initial_state]
  by (simp add: run_def Let_def finalize_content pages_visited_def initial_state_def)

text \<open>
  C10 (the artifact depends on the set only). Two lists of documents whose matching URLs
  form the same set give the same serialized string, whatever the order of the documents,
  the distribution of the URLs over them and the number of times a URL occurs. So two runs
  whose scanned pages hold the same set of matching URLs produce files with identical
  content; the set a run ends with is the set of matching URLs of the pages it scanned.
\<close>

theorem artifact_depends_on_set_only:
  "(\<Union> (page_urls ` set docs1) = \<Union> (page_urls ` set docs2) \<longrightarrow>
      urlList (scan_pages docs1 []) = urlList (scan_pages docs2 []))
   \<and> (\<Union> (page_urls ` set (pages_visited site1)) = \<Union> (page_urls ` set (pages_visited site2)) \<longrightarrow>
      content (snd (snd (run site1))) = content (snd (snd (run site2))))
   \<and> set (allUrls (snd (main_loop site1 initial_state))) = \<Union> (page_urls ` set (pages_visited site1))"
proof -
  have key: "urlList (scan_pages ds1 []) = urlList (scan_pages ds2 [])"
    if "\<Union> (page_urls ` set ds1) = \<Union> (page_urls ` set ds2)" for ds1 ds2
  proof (rule urlList_set_cong)
    show "distinct (scan_pages ds1 [])" and "distinct (scan_pages ds2 [])"
      by (simp_all add: distinct_scan_pages)
    show "set (scan_pages ds1 []) = set (scan_pages ds2 [])"
      using that by (simp add: set_scan_pages)
  qed
  have vis: "set (allUrls (snd (main_loop site1 initial_state))) =
      \<Union> (page_urls ` set (pages_visited site1))"
    using main_loop_allUrls [of site1 initial_state]
    by (simp add: pages_visited_def initial_state_def set_scan_pages)
  show ?thesis
  proof (intro conjI impI)
    assume "\<Union> (page_urls ` set docs1) = \<Union> (page_urls ` set docs2)"
    then show "urlList (scan_pages docs1 []) = urlList (scan_pages docs2 [])"
      by (rule key)
  next
    assume "\<Union> (page_urls ` set (pages_visited site1)) = \<Union> (page_urls ` set (pages_visited site2))"
    then have "urlList (scan_pages (pages_visited site1) []) = urlList (scan_pages (pages_visited site2) [])"
      by (rule key)
    then show "content (snd (snd (run site1))) = content (snd (snd (run site2)))"
      by (simp only: run_content)
  next
    show "set (allUrls (snd (main_loop site1 initial_state))) =
      \<Union> (page_urls ` set (pages_visited site1))"
      by (rule vis)
  qed
qed

lemma pages_visited_two_pages:
  "pages_visited site_two_pages = [[link_b, link_a, next_control []], [link_b]]"
  by code_simp

lemma pages_visited_one_page: "pages_visited site_one_page = [[link_a, link_b, link_a]]"
  by code_simp

lemma allUrls_two_pages:
  "allUrls (snd (main_loop site_two_pages initial_state)) =
     [lit ''https://host/epstein/files/b.pdf'', lit ''https://host/epstein/files/a.pdf'']"
  by code_simp

lemma allUrls_one_page:
  "allUrls (snd (main_loop site_one_page initial_state)) =
     [lit ''https://host/epstein/files/a.pdf'', lit ''https://host/epstein/files/b.pdf'']"
  by code_simp

lemma content_two_pages:
  "content (snd (snd (run site_two_pages))) =
     lit ''https://host/epstein/files/a.pdf'' @ [0x0A] @ lit ''https://host/epstein/files/b.pdf''"
  by code_simp

theorem artifact_depends_on_set_only_witness:
  "length (pages_visited site_two_pages) = 2
   \<and> length (pages_visited site_one_page) = 1
   \<and> allUrls (snd (main_loop site_two_pages initial_state)) \<noteq>
       allUrls (snd (main_loop site_one_page initial_state))
   \<and> \<Union> (page_urls ` set (pages_visited site_two_pages)) =
       \<Union> (page_urls ` set (pages_visited site_one_page))
   \<and> content (snd (snd (run site_two_pages))) = content (snd (snd (run site_one_page)))
   \<and> content (snd (snd (run site_one_page))) =
       lit ''https://host/epstein/files/a.pdf'' @ [0x0A] @ lit ''https://host/epstein/files/b.pdf''
   \<and> \<Union> (page_urls ` set [[link_b], [link_a]]) = \<Union> (page_urls ` set [[link_a, link_b, link_a]])
   \<and> urlList (scan_pages [[link_b], [link_a]] []) = urlList (scan_pages [[link_a, link_b, link_a]] [])"
proof -
  have h1: "\<Union> (page_urls ` set (pages_visited site_two_pages)) =
       \<Union> (page_urls ` set (pages_visited site_one_page))"
    by code_simp
  have h2: "\<Union> (page_urls ` set [[link_b], [link_a]]) = \<Union> (page_urls ` set [[link_a, link_b, link_a]])"
    by code_simp
  note t = artifact_depends_on_set_only [of "[[link_b], [link_a]]" "[[link_a, link_b, link_a]]"
      site_two_pages site_one_page]
  from t h1 have c: "content (snd (snd (run site_two_pages))) = content (snd (snd (run site_one_page)))"
    by blast
  from t h2 have u: "urlList (scan_pages [[link_b], [link_a]] []) =
      urlList (scan_pages [[link_a, link_b, link_a]] [])"
    by blast
  have d: "allUrls (snd (main_loop site_two_pages initial_state)) \<noteq>
       allUrls (snd (main_loop site_one_page initial_state))"
    unfolding allUrls_two_pages allUrls_one_page by (simp add: lit_def)
  have l: "length (pages_visited site_two_pages) = 2" "length (pages_visited site_one_page) = 1"
    by (simp_all add: pages_visited_two_pages pages_visited_one_page)
  from c content_two_pages have e: "content (snd (snd (run site_one_page))) =
       lit ''https://host/epstein/files/a.pdf'' @ [0x0A] @ lit ''https://host/epstein/files/b.pdf''"
    by simp
  from l d h1 c e h2 u show ?thesis
    by (intro conjI)
qed

end
